theory Spec2Isabelle
  imports Main "HOL-Library.FSet"
begin

section \<open>The Quine-McCluskey routine of logiccircuite.py\<close>

text \<open>
  The embedding follows \<^verbatim>\<open>qm_simplify\<close>, its local function \<^verbatim>\<open>combine\<close> and
  \<^verbatim>\<open>bits_to_expr\<close>. Python integers are \<^typ>\<open>int\<close>, Python strings are
  \<^typ>\<open>string\<close>, Python sets are finite sets, and an exception is the left
  injection of a sum.
\<close>

datatype error = ValueError

subsection \<open>Binary formatting and parsing\<close>

text \<open>The digits of \<^verbatim>\<open>format(m, 'b')\<close> for a non-negative \<^verbatim>\<open>m\<close>.\<close>

fun bin_digits :: "nat \<Rightarrow> string" where
  "bin_digits m =
     (if m < 2 then [if m = 0 then CHR ''0'' else CHR ''1'']
      else bin_digits (m div 2) @ [if m mod 2 = 0 then CHR ''0'' else CHR ''1''])"

declare bin_digits.simps [simp del]

text \<open>
  \<^verbatim>\<open>format(m, f'0{w}b')\<close> for a width \<^verbatim>\<open>w >= 0\<close>: the digits padded with zeros on
  the left up to the width; the sign of a negative number comes first and counts
  towards the width. A number with more digits than the width is not cut.
\<close>

definition format_0b :: "int \<Rightarrow> nat \<Rightarrow> string" where
  "format_0b m w =
     (let digits = bin_digits (nat \<bar>m\<bar>) in
      if m < 0 then CHR ''-'' # replicate (w - 1 - length digits) (CHR ''0'') @ digits
      else replicate (w - length digits) (CHR ''0'') @ digits)"

text \<open>\<^verbatim>\<open>t.replace('-', '0')\<close>\<close>

definition replace_dash :: "string \<Rightarrow> string" where
  "replace_dash t = map (\<lambda>c. if c = CHR ''-'' then CHR ''0'' else c) t"

text \<open>The value of a string of binary digits, read from the left.\<close>

fun bin_value :: "nat \<Rightarrow> string \<Rightarrow> nat" where
  "bin_value acc [] = acc"
| "bin_value acc (c # cs) = bin_value (2 * acc + (if c = CHR ''1'' then 1 else 0)) cs"

text \<open>
  \<^verbatim>\<open>int(s, 2)\<close> on the strings this program passes to it, which are non-empty and
  made of the digits 0 and 1 only (lemma \<open>new_terms_parse\<close> below). The empty string
  raises \<^verbatim>\<open>ValueError\<close>. Python also accepts a sign, a \<^verbatim>\<open>0b\<close> prefix, underscores
  and surrounding blanks; strings with any character other than 0 and 1 are outside
  this model and are mapped to the error as well.
\<close>

definition int_base2 :: "string \<Rightarrow> error + int" where
  "int_base2 s =
     (if s \<noteq> [] \<and> list_all (\<lambda>c. c = CHR ''0'' \<or> c = CHR ''1'') s
      then Inr (int (bin_value 0 s)) else Inl ValueError)"

subsection \<open>combine\<close>

text \<open>
  The loop of \<^verbatim>\<open>combine\<close> over \<^verbatim>\<open>zip(a, b)\<close>, with its two variables \<^verbatim>\<open>diff\<close> and
  \<^verbatim>\<open>res\<close>. \<^verbatim>\<open>zip\<close> stops at the end of the shorter string.
\<close>

fun combine_loop :: "(char \<times> char) list \<Rightarrow> nat \<Rightarrow> string \<Rightarrow> nat \<times> string" where
  "combine_loop [] diff res = (diff, res)"
| "combine_loop ((x, y) # rest) diff res =
     (if x \<noteq> y then combine_loop rest (diff + 1) (res @ [CHR ''-''])
      else combine_loop rest diff (res @ [x]))"

definition combine :: "string \<Rightarrow> string \<Rightarrow> string option" where
  "combine a b =
     (case combine_loop (zip a b) 0 [] of (diff, res) \<Rightarrow> if diff = 1 then Some res else None)"

text \<open>\<^verbatim>\<open>if combined:\<close> holds for a string that is not empty, and fails for \<^verbatim>\<open>None\<close>.\<close>

fun truthy :: "string option \<Rightarrow> bool" where
  "truthy None = False"
| "truthy (Some s) = (s \<noteq> [])"

subsection \<open>qm_simplify\<close>

text \<open>
  One run of the two nested loops over \<^verbatim>\<open>terms\<close>. Both results are sets, so the
  order in which Python walks through \<^verbatim>\<open>terms\<close> does not matter: \<^verbatim>\<open>new_terms\<close>
  receives every truthy \<^verbatim>\<open>combine(a, b)\<close>, and a term is discarded from
  \<^verbatim>\<open>unchecked\<close> as soon as it is the \<^verbatim>\<open>a\<close> or the \<^verbatim>\<open>b\<close> of such a pair.
\<close>

definition new_terms_of :: "string fset \<Rightarrow> string fset" where
  "new_terms_of terms =
     ffUnion ((\<lambda>a. ffUnion ((\<lambda>b. if truthy (combine a b) then {|the (combine a b)|} else {||})
                              |`| terms)) |`| terms)"

definition unchecked_of :: "string fset \<Rightarrow> string fset" where
  "unchecked_of terms =
     ffilter (\<lambda>t. \<not> (\<exists>b |\<in>| terms. truthy (combine t b)) \<and>
                  \<not> (\<exists>a |\<in>| terms. truthy (combine a t))) terms"

text \<open>
  The set \<^verbatim>\<open>{format(m, f'0{num_vars}b') for m in minterms}\<close>. The format
  specification is invalid for a negative \<^verbatim>\<open>num_vars\<close>, so the comprehension raises
  as soon as it formats one element; over the empty set nothing is formatted.
\<close>

definition terms_of :: "int fset \<Rightarrow> int \<Rightarrow> error + string fset" where
  "terms_of minterms num_vars =
     (if num_vars < 0 \<and> minterms \<noteq> {||} then Inl ValueError
      else Inr ((\<lambda>m. format_0b m (nat num_vars)) |`| minterms))"

text \<open>The set \<^verbatim>\<open>{int(t.replace('-', '0'), 2) for t in new_terms}\<close>.\<close>

definition reencode :: "string fset \<Rightarrow> error + int fset" where
  "reencode new_terms =
     (if \<exists>t |\<in>| new_terms. int_base2 (replace_dash t) = Inl ValueError then Inl ValueError
      else Inr ((\<lambda>t. projr (int_base2 (replace_dash t))) |`| new_terms))"


text \<open>
  \<^verbatim>\<open>qm_simplify\<close> itself. An exception raised while a set comprehension is built,
  or by the recursive call, leaves the function at once.
\<close>

function qm_simplify :: "int fset \<Rightarrow> int \<Rightarrow> error + string fset" where
  "qm_simplify minterms num_vars =
     (case terms_of minterms num_vars of
        Inl e \<Rightarrow> Inl e
      | Inr terms \<Rightarrow>
          let new_terms = new_terms_of terms;
              unchecked = unchecked_of terms
          in if new_terms = {||} then Inr unchecked
             else (case reencode new_terms of
                     Inl e \<Rightarrow> Inl e
                   | Inr ms \<Rightarrow>
                       (case qm_simplify ms num_vars of
                          Inl e \<Rightarrow> Inl e
                        | Inr r \<Rightarrow> Inr (r |\<union>| unchecked))))"
  by pat_completeness auto

text \<open>
  The same function with a bound on the number of nested calls: \<open>None\<close> when the
  bound is used up before a call returns.
\<close>

primrec qm_simplify_fuel :: "nat \<Rightarrow> int fset \<Rightarrow> int \<Rightarrow> (error + string fset) option" where
  "qm_simplify_fuel 0 minterms num_vars = None"
| "qm_simplify_fuel (Suc k) minterms num_vars =
     (case terms_of minterms num_vars of
        Inl e \<Rightarrow> Some (Inl e)
      | Inr terms \<Rightarrow>
          let new_terms = new_terms_of terms;
              unchecked = unchecked_of terms
          in if new_terms = {||} then Some (Inr unchecked)
             else (case reencode new_terms of
                     Inl e \<Rightarrow> Some (Inl e)
                   | Inr ms \<Rightarrow>
                       (case qm_simplify_fuel k ms num_vars of
                          None \<Rightarrow> None
                        | Some (Inl e) \<Rightarrow> Some (Inl e)
                        | Some (Inr r) \<Rightarrow> Some (Inr (r |\<union>| unchecked)))))"

subsection \<open>bits_to_expr\<close>

text \<open>The loop of \<^verbatim>\<open>bits_to_expr\<close> over \<^verbatim>\<open>zip(bits, vars_sorted)\<close>, with its list \<^verbatim>\<open>terms\<close>.\<close>

fun bits_loop :: "(char \<times> string) list \<Rightarrow> string list \<Rightarrow> string list" where
  "bits_loop [] terms = terms"
| "bits_loop ((b, v) # rest) terms =
     (if b = CHR ''1'' then bits_loop rest (terms @ [v])
      else if b = CHR ''0'' then bits_loop rest (terms @ [CHR ''!'' # v])
      else bits_loop rest terms)"

text \<open>\<^verbatim>\<open>sep.join(xs)\<close>\<close>

fun str_join :: "string \<Rightarrow> string list \<Rightarrow> string" where
  "str_join sep [] = []"
| "str_join sep [x] = x"
| "str_join sep (x # y # ys) = x @ sep @ str_join sep (y # ys)"

definition bits_to_expr :: "string \<Rightarrow> string list \<Rightarrow> string" where
  "bits_to_expr bits vars_sorted =
     (let terms = bits_loop (zip bits vars_sorted) []
      in if terms \<noteq> [] then str_join ''.'' terms else ''1'')"

subsection \<open>The call in main\<close>

text \<open>
  The step of \<^verbatim>\<open>main\<close> that computes \<^verbatim>\<open>simplified\<close>. The command line option
  \<^verbatim>\<open>--dontcare\<close> is declared and parsed into \<^verbatim>\<open>args.dontcare\<close> (a string, or
  \<^verbatim>\<open>None\<close> when the option is absent), and \<^verbatim>\<open>main\<close> never reads it.
\<close>

definition main_simplified :: "string option \<Rightarrow> int fset \<Rightarrow> string list \<Rightarrow> error + string fset" where
  "main_simplified dontcare minterms vars_sorted =
     qm_simplify minterms (int (length vars_sorted))"

subsection \<open>Notions of the specification\<close>

text \<open>
  A pattern covers an assignment index when every position of the pattern that is
  not \<^verbatim>\<open>-\<close> agrees with the corresponding character of the index written with
  \<open>n\<close> binary digits, which is how \<^verbatim>\<open>qm_simplify\<close> writes it. An index that does not
  fit into \<open>n\<close> digits is covered by no pattern of width \<open>n\<close>.
\<close>

definition covers :: "string \<Rightarrow> nat \<Rightarrow> int \<Rightarrow> bool" where
  "covers p n m = list_all2 (\<lambda>c d. c = CHR ''-'' \<or> c = d) p (format_0b m n)"

text \<open>
  The renderer as the specification words it: what one position emits, then the
  literals of all positions in order, joined, or the constant when none is left.
\<close>

definition literal_spec :: "char \<Rightarrow> string \<Rightarrow> string list" where
  "literal_spec c v =
     (if c = CHR ''1'' then [v] else if c = CHR ''0'' then [CHR ''!'' # v] else [])"

definition render_spec :: "string \<Rightarrow> string list \<Rightarrow> string" where
  "render_spec pattern names =
     (let lits = concat (map (\<lambda>i. literal_spec (pattern ! i) (names ! i)) [0..<length pattern])
      in if lits = [] then ''1'' else str_join ''.'' lits)"


section \<open>Strings of binary digits\<close>

lemma combine_loop_eq:
  "combine_loop zs d r =
     (d + length (filter (\<lambda>(x, y). x \<noteq> y) zs),
      r @ map (\<lambda>(x, y). if x \<noteq> y then CHR ''-'' else x) zs)"
  by (induction zs d r rule: combine_loop.induct) auto

lemma combine_Some_iff:
  "combine a b = Some t \<longleftrightarrow>
     length (filter (\<lambda>(x, y). x \<noteq> y) (zip a b)) = 1 \<and>
     t = map (\<lambda>(x, y). if x \<noteq> y then CHR ''-'' else x) (zip a b)"
  by (auto simp: combine_def combine_loop_eq)

lemma bin_value_append: "bin_value acc (xs @ ys) = bin_value (bin_value acc xs) ys"
  by (induction xs arbitrary: acc) auto

lemma bin_value_ge: "acc \<le> bin_value acc xs"
proof (induction xs arbitrary: acc)
  case Nil
  show ?case by simp
next
  case (Cons c cs)
  have "acc \<le> 2 * acc + (if c = CHR ''1'' then 1 else 0)" by simp
  also have "\<dots> \<le> bin_value (2 * acc + (if c = CHR ''1'' then 1 else 0)) cs"
    by (rule Cons.IH)
  finally show ?case by simp
qed

lemma bin_value_bin_digits: "bin_value 0 (bin_digits m) = m"
proof (induction m rule: bin_digits.induct)
  case (1 m)
  show ?case
  proof (cases "m < 2")
    case True
    then have "m = 0 \<or> m = 1" by arith
    then show ?thesis by (auto simp: bin_digits.simps [of m])
  next
    case False
    with 1 have "bin_value 0 (bin_digits (m div 2)) = m div 2" by simp
    with False show ?thesis
      by (subst bin_digits.simps) (simp add: bin_value_append mult_div_mod_eq, presburger)
  qed
qed

lemma bin_digits_bits: "set (bin_digits m) \<subseteq> {CHR ''0'', CHR ''1''}"
proof (induction m rule: bin_digits.induct)
  case (1 m)
  then show ?case by (subst bin_digits.simps) auto
qed

lemma bin_value_zeros: "bin_value 0 (replicate k (CHR ''0'')) = 0"
  by (induction k) auto

lemma format_0b_nonneg:
  "0 \<le> m \<Longrightarrow> format_0b m w =
     replicate (w - length (bin_digits (nat m))) (CHR ''0'') @ bin_digits (nat m)"
  by (simp add: format_0b_def Let_def)

lemma format_0b_bits: "0 \<le> m \<Longrightarrow> set (format_0b m w) \<subseteq> {CHR ''0'', CHR ''1''}"
  using bin_digits_bits [of "nat m"] by (auto simp: format_0b_nonneg)

lemma bin_value_format_0b: "0 \<le> m \<Longrightarrow> int (bin_value 0 (format_0b m w)) = m"
  by (simp add: format_0b_nonneg bin_value_append bin_value_zeros bin_value_bin_digits)

text \<open>The value grows with the accumulator and with the digits.\<close>

lemma bin_value_mono:
  "list_all2 (\<lambda>c d. c = CHR ''1'' \<longrightarrow> d = CHR ''1'') xs ys \<Longrightarrow> p \<le> q \<Longrightarrow>
     bin_value p xs \<le> bin_value q ys"
proof (induction xs ys arbitrary: p q rule: list_all2_induct)
  case Nil
  then show ?case by simp
next
  case (Cons x xs y ys)
  from Cons.hyps(1) Cons.prems
  have "2 * p + (if x = CHR ''1'' then 1 else 0) \<le> 2 * q + (if y = CHR ''1'' then 1 else 0)"
    by auto
  then show ?case using Cons.IH by simp
qed

lemma bin_value_strict:
  "list_all2 (\<lambda>c d. c = CHR ''1'' \<longrightarrow> d = CHR ''1'') xs ys \<Longrightarrow> p < q \<Longrightarrow>
     bin_value p xs < bin_value q ys"
proof (induction xs ys arbitrary: p q rule: list_all2_induct)
  case Nil
  then show ?case by simp
next
  case (Cons x xs y ys)
  from Cons.hyps(1) Cons.prems
  have "2 * p + (if x = CHR ''1'' then 1 else 0) < 2 * q + (if y = CHR ''1'' then 1 else 0)"
    by auto
  then show ?case using Cons.IH by simp
qed

lemma low_below_fst:
  "list_all2 (\<lambda>c d. c = CHR ''1'' \<longrightarrow> d = CHR ''1'')
     (map (\<lambda>(x, y). if x \<noteq> y then CHR ''0'' else x) zs) (map fst zs)"
  by (induction zs) (auto split: if_splits)

lemma low_below_snd:
  "list_all2 (\<lambda>c d. c = CHR ''1'' \<longrightarrow> d = CHR ''1'')
     (map (\<lambda>(x, y). if x \<noteq> y then CHR ''0'' else x) zs) (map snd zs)"
  by (induction zs) (auto split: if_splits)

lemma low_strict:
  assumes "\<forall>(x, y) \<in> set zs. x \<in> {CHR ''0'', CHR ''1''} \<and> y \<in> {CHR ''0'', CHR ''1''}"
    and "\<exists>(x, y) \<in> set zs. x \<noteq> y" and "p \<le> q" and "p \<le> r"
  shows "bin_value p (map (\<lambda>(x, y). if x \<noteq> y then CHR ''0'' else x) zs) < bin_value q (map fst zs)
       \<or> bin_value p (map (\<lambda>(x, y). if x \<noteq> y then CHR ''0'' else x) zs) < bin_value r (map snd zs)"
  using assms
proof (induction zs arbitrary: p q r)
  case Nil
  then show ?case by simp
next
  case (Cons z zs)
  obtain x y where z: "z = (x, y)" by (cases z)
  show ?case
  proof (cases "x = y")
    case True
    with Cons.prems z have ex: "\<exists>(x, y) \<in> set zs. x \<noteq> y" by auto
    from Cons.prems(1) have bits: "\<forall>(x, y) \<in> set zs. x \<in> {CHR ''0'', CHR ''1''} \<and> y \<in> {CHR ''0'', CHR ''1''}"
      by auto
    have le: "2 * p + (if x = CHR ''1'' then 1 else 0) \<le> 2 * q + (if x = CHR ''1'' then 1 else 0)"
       "2 * p + (if x = CHR ''1'' then 1 else 0) \<le> 2 * r + (if x = CHR ''1'' then 1 else 0)"
      using Cons.prems(3,4) by auto
    from Cons.IH [OF bits ex le] show ?thesis using True z by simp
  next
    case False
    from Cons.prems(1) z have xy: "x \<in> {CHR ''0'', CHR ''1''}" "y \<in> {CHR ''0'', CHR ''1''}"
      by auto
    show ?thesis
    proof (cases "x = CHR ''1''")
      case True
      with False xy have y: "y = CHR ''0''" by auto
      have "2 * p < 2 * q + 1" using Cons.prems(3) by simp
      from bin_value_strict [OF low_below_fst this, of zs]
      show ?thesis using z True y by simp
    next
      case x0: False
      with False xy have x: "x = CHR ''0''" and y: "y = CHR ''1''" by auto
      have "2 * p < 2 * r + 1" using Cons.prems(4) by simp
      from bin_value_strict [OF low_below_snd this, of zs]
      show ?thesis using z x y by simp
    qed
  qed
qed

lemma bin_value_zip_fst: "bin_value q (map fst (zip a b)) \<le> bin_value q a"
proof -
  have "map fst (zip a b) = take (length b) a"
    by (simp add: map_fst_zip_take take_map [symmetric] min_def)
  then have "bin_value q a = bin_value (bin_value q (map fst (zip a b))) (drop (length b) a)"
    by (metis append_take_drop_id bin_value_append)
  then show ?thesis by (simp add: bin_value_ge)
qed

lemma bin_value_zip_snd: "bin_value q (map snd (zip a b)) \<le> bin_value q b"
proof -
  have "map snd (zip a b) = take (length a) b"
    by (simp add: map_snd_zip_take min_def)
  then have "bin_value q b = bin_value (bin_value q (map snd (zip a b))) (drop (length a) b)"
    by (metis append_take_drop_id bin_value_append)
  then show ?thesis by (simp add: bin_value_ge)
qed

lemma replace_dash_combined:
  assumes "set a \<subseteq> {CHR ''0'', CHR ''1''}" 
  shows "replace_dash (map (\<lambda>(x, y). if x \<noteq> y then CHR ''-'' else x) (zip a b)) =
     map (\<lambda>(x, y). if x \<noteq> y then CHR ''0'' else x) (zip a b)"
proof -
  have "(CHR ''-'', y) \<notin> set (zip a b)" for y
    using assms by (auto dest!: set_zip_leftD)
  then show ?thesis by (auto simp: replace_dash_def split: if_splits)
qed

lemma combine_value_less:
  assumes a: "set a \<subseteq> {CHR ''0'', CHR ''1''}" and b: "set b \<subseteq> {CHR ''0'', CHR ''1''}"
    and c: "combine a b = Some t"
  shows "bin_value 0 (replace_dash t) < bin_value 0 a \<or> bin_value 0 (replace_dash t) < bin_value 0 b"
proof -
  let ?zs = "zip a b"
  let ?low = "map (\<lambda>(x, y). if x \<noteq> y then CHR ''0'' else x) ?zs"
  from c have n: "length (filter (\<lambda>(x, y). x \<noteq> y) ?zs) = 1"
    and t: "t = map (\<lambda>(x, y). if x \<noteq> y then CHR ''-'' else x) ?zs"
    by (simp_all add: combine_Some_iff)
  from t a have r: "replace_dash t = ?low" by (simp add: replace_dash_combined)
  from n have "filter (\<lambda>(x, y). x \<noteq> y) ?zs \<noteq> []" by auto
  then have ex: "\<exists>(x, y) \<in> set ?zs. x \<noteq> y"
    by (auto simp: filter_empty_conv)
  have bits: "\<forall>(x, y) \<in> set ?zs. x \<in> {CHR ''0'', CHR ''1''} \<and> y \<in> {CHR ''0'', CHR ''1''}"
    using a b by (auto dest: set_zip_leftD set_zip_rightD)
  from low_strict [OF bits ex order_refl order_refl, of 0]
  have "bin_value 0 ?low < bin_value 0 (map fst ?zs) \<or> bin_value 0 ?low < bin_value 0 (map snd ?zs)" .
  with bin_value_zip_fst [of 0 a b] bin_value_zip_snd [of 0 a b] r
  show ?thesis by auto
qed

section \<open>One level of combination, and termination\<close>

lemma ffUnion_iff: "x |\<in>| ffUnion A \<longleftrightarrow> (\<exists>a. a |\<in>| A \<and> x |\<in>| a)"
  by (auto simp: ffUnion.rep_eq)

lemma ffUnion_fimage_iff: "x |\<in>| ffUnion (f |`| A) \<longleftrightarrow> (\<exists>a. a |\<in>| A \<and> x |\<in>| f a)"
  unfolding ffUnion_iff by blast

lemma new_terms_of_iff:
  "t |\<in>| new_terms_of T \<longleftrightarrow> (\<exists>a b. a |\<in>| T \<and> b |\<in>| T \<and> combine a b = Some t \<and> t \<noteq> [])"
proof -
  have hit: "t |\<in>| (if truthy (combine a b) then {|the (combine a b)|} else {||})
      \<longleftrightarrow> combine a b = Some t \<and> t \<noteq> []" for a b
    by (cases "combine a b") auto
  show ?thesis
    unfolding new_terms_of_def ffUnion_fimage_iff hit by blast
qed

lemma terms_of_Inr:
  "terms_of S n = Inr T \<longleftrightarrow> (n < 0 \<longrightarrow> S = {||}) \<and> T = (\<lambda>m. format_0b m (nat n)) |`| S"
  by (auto simp: terms_of_def)

lemma reencode_Inr:
  "reencode N = Inr ms \<longleftrightarrow>
     (\<forall>t. t |\<in>| N \<longrightarrow> int_base2 (replace_dash t) \<noteq> Inl ValueError) \<and>
     ms = (\<lambda>t. projr (int_base2 (replace_dash t))) |`| N"
  by (auto simp: reencode_def)

lemma int_base2_nonneg: "int_base2 s \<noteq> Inl ValueError \<Longrightarrow> 0 \<le> projr (int_base2 s)"
  by (auto simp: int_base2_def split: if_splits)

lemma level_decreases:
  assumes T: "terms_of S n = Inr T" and N: "new_terms_of T \<noteq> {||}"
    and ms: "reencode (new_terms_of T) = Inr ms"
  shows "ms \<noteq> {||}" and "\<forall>v. v |\<in>| ms \<longrightarrow> 0 \<le> v"
    and "(\<forall>m. m |\<in>| S \<longrightarrow> 0 \<le> m) \<Longrightarrow> \<forall>v. v |\<in>| ms \<longrightarrow> (\<exists>m. m |\<in>| S \<and> v < m)"
proof -
  from ms have ok: "\<And>t. t |\<in>| new_terms_of T \<Longrightarrow> int_base2 (replace_dash t) \<noteq> Inl ValueError"
    and eq: "ms = (\<lambda>t. projr (int_base2 (replace_dash t))) |`| new_terms_of T"
    by (simp_all add: reencode_Inr)
  from N eq show "ms \<noteq> {||}" by auto
  from ok eq show "\<forall>v. v |\<in>| ms \<longrightarrow> 0 \<le> v"
    by (auto intro: int_base2_nonneg)
  assume nonneg: "\<forall>m. m |\<in>| S \<longrightarrow> 0 \<le> m"
  show "\<forall>v. v |\<in>| ms \<longrightarrow> (\<exists>m. m |\<in>| S \<and> v < m)"
  proof (intro allI impI)
    fix v assume "v |\<in>| ms"
    with eq obtain t where t: "t |\<in>| new_terms_of T" and v: "v = projr (int_base2 (replace_dash t))"
      by auto
    from t obtain a b where ab: "a |\<in>| T" "b |\<in>| T" "combine a b = Some t"
      by (auto simp: new_terms_of_iff)
    from T ab obtain x y where xy: "x |\<in>| S" "y |\<in>| S"
      "a = format_0b x (nat n)" "b = format_0b y (nat n)"
      by (auto simp: terms_of_Inr)
    from nonneg xy have x0: "0 \<le> x" and y0: "0 \<le> y" by auto
    from ok [OF t] v have v': "v = int (bin_value 0 (replace_dash t))"
      by (auto simp: int_base2_def split: if_splits)
    have "bin_value 0 (replace_dash t) < bin_value 0 a \<or> bin_value 0 (replace_dash t) < bin_value 0 b"
      unfolding xy(3,4)
      by (rule combine_value_less) (use ab(3) x0 y0 in \<open>simp_all add: xy(3,4) format_0b_bits\<close>)
    moreover have "int (bin_value 0 a) = x" "int (bin_value 0 b) = y"
      unfolding xy(3,4) using x0 y0 by (simp_all add: bin_value_format_0b)
    ultimately have "v < x \<or> v < y"
      unfolding v' by linarith
    with xy show "\<exists>m. m |\<in>| S \<and> v < m" by auto
  qed
qed

text \<open>
  Every nested call gets a set without negative numbers whose greatest element is
  smaller than the greatest element of the set before, so the recursion ends on
  every input.
\<close>

termination qm_simplify
proof (relation "inv_image (less_than <*lex*> less_than)
    (\<lambda>(S, n). (fcard (ffilter (\<lambda>m. m < 0) S), if S = {||} then 0 else nat (fMax S)))")
  show "wf (inv_image (less_than <*lex*> less_than)
    (\<lambda>(S :: int fset, n :: int). (fcard (ffilter (\<lambda>m. m < 0) S), if S = {||} then 0 else nat (fMax S))))"
    by (intro wf_inv_image wf_lex_prod wf_less_than)
next
  fix minterms :: "int fset" and num_vars :: int and T N U ms
  assume T: "terms_of minterms num_vars = Inr T" and "N = new_terms_of T" and "N \<noteq> {||}"
    and "reencode N = Inr ms"
  then have N: "new_terms_of T \<noteq> {||}" and ms: "reencode (new_terms_of T) = Inr ms"
    by simp_all
  note d = level_decreases [OF T N ms]
  from d(2) have neg_ms: "ffilter (\<lambda>m. m < 0) ms = {||}" by (auto simp: fset_eq_iff) 
  show "((ms, num_vars), (minterms, num_vars)) \<in> inv_image (less_than <*lex*> less_than)
    (\<lambda>(S, n). (fcard (ffilter (\<lambda>m. m < 0) S), if S = {||} then 0 else nat (fMax S)))"
  proof (cases "ffilter (\<lambda>m. m < 0) minterms = {||}")
    case True
    have nonneg: "\<forall>m. m |\<in>| minterms \<longrightarrow> 0 \<le> m"
    proof (intro allI impI)
      fix m assume m: "m |\<in>| minterms"
      show "0 \<le> m"
      proof (rule ccontr)
        assume "\<not> 0 \<le> m"
        with m have "m |\<in>| ffilter (\<lambda>m. m < 0) minterms" by simp
        with True show False by simp
      qed
    qed
    from d(3) [OF nonneg] d(1) obtain m where m: "m |\<in>| minterms" "fMax ms < m"
      by (meson fMax_in)
    then have "fMax ms < fMax minterms" by (meson fMax_ge less_le_trans)
    moreover have "0 \<le> fMax ms" using d(1,2) by (meson fMax_in)
    ultimately show ?thesis using True neg_ms d(1) m(1) by (auto simp: fcard_fempty)
  next
    case False
    then have "0 < fcard (ffilter (\<lambda>m. m < 0) minterms)"
      by (metis fcard_0_eq gr0I)
    moreover from False have "minterms \<noteq> {||}" by auto
    ultimately show ?thesis using neg_ms by (simp add: fcard_fempty)
  qed
qed

declare qm_simplify.simps [simp del]

section \<open>Patterns of valid inputs\<close>

lemma length_bin_digits: "m < 2 ^ k \<Longrightarrow> 1 \<le> k \<Longrightarrow> length (bin_digits m) \<le> k"
proof (induction m arbitrary: k rule: bin_digits.induct)
  case (1 m)
  show ?case
  proof (cases "m < 2")
    case True
    with "1.prems" show ?thesis by (simp add: bin_digits.simps [of m])
  next
    case False
    obtain j where k: "k = Suc j" using "1.prems"(2) by (cases k) auto
    from False "1.prems"(1) k have j: "1 \<le> j" by (cases j) auto
    from "1.prems"(1) k have "m div 2 < 2 ^ j" by auto
    from "1.IH" [OF False this j] False k show ?thesis
      by (simp add: bin_digits.simps [of m])
  qed
qed

lemma length_format_0b:
  assumes "0 \<le> m" and "m < 2 ^ n" and "1 \<le> n"
  shows "length (format_0b m n) = n"
proof -
  from assms have "nat m < 2 ^ n" by (simp add: nat_less_iff)
  from length_bin_digits [OF this assms(3)] assms(1) show ?thesis
    by (simp add: format_0b_nonneg)
qed

lemma format_0b_inj:
  assumes "0 \<le> x" and "0 \<le> y" and "format_0b x n = format_0b y n"
  shows "x = y"
proof -
  have "x = int (bin_value 0 (format_0b x n))"
    using assms(1) by (simp only: bin_value_format_0b)
  also have "\<dots> = int (bin_value 0 (format_0b y n))"
    by (simp only: assms(3))
  also have "\<dots> = y"
    using assms(2) by (simp only: bin_value_format_0b)
  finally show ?thesis .
qed

lemma format_0b_chars: "set (format_0b m w) \<subseteq> {CHR ''-'', CHR ''0'', CHR ''1''}"
  using bin_digits_bits [of "nat \<bar>m\<bar>"] by (auto simp: format_0b_def Let_def)

lemma format_0b_negative: "m < 0 \<Longrightarrow> hd (format_0b m w) = CHR ''-'' \<and> format_0b m w \<noteq> []"
  by (simp add: format_0b_def Let_def)

text \<open>Two strings of binary digits that differ in one position.\<close>

lemma no_diff_low:
  "filter (\<lambda>(x, y). x \<noteq> y) zs = [] \<Longrightarrow>
     map (\<lambda>(x, y). if x \<noteq> y then CHR ''0'' else x) zs = map fst zs \<and> map snd zs = map fst zs"
  by (induction zs) (auto split: if_splits)

lemma one_diff_low:
  assumes "\<forall>(x, y) \<in> set zs. x \<in> {CHR ''0'', CHR ''1''} \<and> y \<in> {CHR ''0'', CHR ''1''}"
    and "length (filter (\<lambda>(x, y). x \<noteq> y) zs) = 1"
  shows "(map (\<lambda>(x, y). if x \<noteq> y then CHR ''0'' else x) zs = map fst zs \<and>
          count_list (map snd zs) (CHR ''1'') = Suc (count_list (map fst zs) (CHR ''1'')))
       \<or> (map (\<lambda>(x, y). if x \<noteq> y then CHR ''0'' else x) zs = map snd zs \<and>
          count_list (map fst zs) (CHR ''1'') = Suc (count_list (map snd zs) (CHR ''1'')))"
  using assms
proof (induction zs)
  case Nil
  then show ?case by simp
next
  case (Cons z zs)
  obtain x y where z: "z = (x, y)" by (cases z)
  from Cons.prems(1) z have xy: "x \<in> {CHR ''0'', CHR ''1''}" "y \<in> {CHR ''0'', CHR ''1''}"
    and bits: "\<forall>(x, y) \<in> set zs. x \<in> {CHR ''0'', CHR ''1''} \<and> y \<in> {CHR ''0'', CHR ''1''}"
    by auto
  show ?case
  proof (cases "x = y")
    case True
    with Cons.prems(2) z have "length (filter (\<lambda>(x, y). x \<noteq> y) zs) = 1" by simp
    from Cons.IH [OF bits this] True z show ?thesis by auto
  next
    case False
    with Cons.prems(2) z have "filter (\<lambda>(x, y). x \<noteq> y) zs = []" by simp
    note nd = no_diff_low [OF this]
    note e1 = nd [THEN conjunct1] and e2 = nd [THEN conjunct2]
    show ?thesis
    proof (cases "x = CHR ''0''")
      case True
      with False xy have "y = CHR ''1''" by auto
      with True z show ?thesis by (simp add: e1 e2 del: map_eq_conv)
    next
      case x1: False
      with False xy have "x = CHR ''1''" "y = CHR ''0''" by auto
      with z show ?thesis by (simp add: e1 e2 del: map_eq_conv)
    qed
  qed
qed

lemma combine_bits_cases:
  assumes a: "set a \<subseteq> {CHR ''0'', CHR ''1''}" and b: "set b \<subseteq> {CHR ''0'', CHR ''1''}"
    and len: "length a = length b" and c: "combine a b = Some t"
  shows "(replace_dash t = a \<and> count_list b (CHR ''1'') = Suc (count_list a (CHR ''1'')))
       \<or> (replace_dash t = b \<and> count_list a (CHR ''1'') = Suc (count_list b (CHR ''1'')))"
proof -
  let ?zs = "zip a b"
  from c have n: "length (filter (\<lambda>(x, y). x \<noteq> y) ?zs) = 1"
    and t: "t = map (\<lambda>(x, y). if x \<noteq> y then CHR ''-'' else x) ?zs"
    by (simp_all add: combine_Some_iff)
  from t a have r: "replace_dash t = map (\<lambda>(x, y). if x \<noteq> y then CHR ''0'' else x) ?zs"
    by (simp add: replace_dash_combined)
  have bits: "\<forall>(x, y) \<in> set ?zs. x \<in> {CHR ''0'', CHR ''1''} \<and> y \<in> {CHR ''0'', CHR ''1''}"
    using a b by (auto dest: set_zip_leftD set_zip_rightD)
  from len have "map fst ?zs = a" "map snd ?zs = b" by simp_all
  with one_diff_low [OF bits n] r show ?thesis by simp
qed

lemma combine_nonempty: "combine a b = Some t \<Longrightarrow> t \<noteq> []"
  by (auto simp: combine_Some_iff)

lemma combine_chars:
  assumes "combine a b = Some t"
  shows "set t \<subseteq> insert (CHR ''-'') (set a)"
proof -
  from assms have "t = map (\<lambda>(x, y). if x \<noteq> y then CHR ''-'' else x) (zip a b)"
    by (simp add: combine_Some_iff)
  moreover have "x \<in> set a" if "(x, y) \<in> set (zip a b)" for x y
    using that by (rule set_zip_leftD)
  ultimately show ?thesis by (auto split: if_splits)
qed

lemma combine_length: "combine a b = Some t \<Longrightarrow> length t = min (length a) (length b)"
  by (auto simp: combine_Some_iff)

section \<open>Unfolding one call\<close>

lemma bin_digits_nonempty: "bin_digits m \<noteq> []"
  by (subst bin_digits.simps) simp

lemma format_0b_nonempty: "format_0b m w \<noteq> []"
  by (simp add: format_0b_def Let_def bin_digits_nonempty)

lemma int_base2_format_0b: "0 \<le> m \<Longrightarrow> int_base2 (format_0b m w) = Inr m"
  using format_0b_bits [of m w]
  by (auto simp: int_base2_def format_0b_nonempty bin_value_format_0b list_all_iff)

text \<open>What is parsed again is never rejected: this is lemma \<open>new_terms_parse\<close>.\<close>

lemma new_terms_parse:
  assumes T: "terms_of S n = Inr T" and t: "t |\<in>| new_terms_of T"
  shows "int_base2 (replace_dash t) = Inr (int (bin_value 0 (replace_dash t)))"
proof -
  from t obtain a b where ab: "a |\<in>| T" "combine a b = Some t" and ne: "t \<noteq> []"
    by (auto simp: new_terms_of_iff)
  from T ab(1) obtain x where "a = format_0b x (nat n)"
    by (auto simp: terms_of_Inr)
  with format_0b_chars [of x "nat n"] combine_chars [OF ab(2)]
  have "set t \<subseteq> {CHR ''-'', CHR ''0'', CHR ''1''}" by auto
  then have "set (replace_dash t) \<subseteq> {CHR ''0'', CHR ''1''}"
    by (auto simp: replace_dash_def)
  moreover from ne have "replace_dash t \<noteq> []" by (simp add: replace_dash_def)
  ultimately show ?thesis by (auto simp: int_base2_def list_all_iff)
qed

lemma reencode_total:
  assumes "terms_of S n = Inr T"
  shows "reencode (new_terms_of T) =
           Inr ((\<lambda>t. int (bin_value 0 (replace_dash t))) |`| new_terms_of T)"
proof -
  have "int_base2 (replace_dash t) = Inr (int (bin_value 0 (replace_dash t)))"
    if "t |\<in>| new_terms_of T" for t
    using assms that by (rule new_terms_parse)
  then have "\<not> (\<exists>t |\<in>| new_terms_of T. int_base2 (replace_dash t) = Inl ValueError)"
    and "(\<lambda>t. projr (int_base2 (replace_dash t))) |`| new_terms_of T =
         (\<lambda>t. int (bin_value 0 (replace_dash t))) |`| new_terms_of T"
    by (auto intro!: fimage_cong)
  then show ?thesis
    unfolding reencode_def by simp
qed

lemma qm_simplify_step:
  "terms_of S n = Inr T \<Longrightarrow>
     qm_simplify S n =
       (if new_terms_of T = {||} then Inr (unchecked_of T)
        else case reencode (new_terms_of T) of
               Inl e \<Rightarrow> Inl e
             | Inr ms \<Rightarrow>
                 (case qm_simplify ms n of
                    Inl e \<Rightarrow> Inl e
                  | Inr r \<Rightarrow> Inr (r |\<union>| unchecked_of T)))"
  by (subst qm_simplify.simps) (simp add: Let_def)

lemma qm_simplify_error: "terms_of S n = Inl e \<Longrightarrow> qm_simplify S n = Inl e"
  by (subst qm_simplify.simps) simp

lemma unchecked_of_subset: "unchecked_of T |\<subseteq>| T"
  by (auto simp: unchecked_of_def)

section \<open>The result on valid inputs\<close>

lemma level_valid:
  assumes n: "1 \<le> n" and S: "\<forall>m. m |\<in>| S \<longrightarrow> 0 \<le> m \<and> m < 2 ^ nat n"
    and T: "terms_of S n = Inr T" and t: "t |\<in>| new_terms_of T"
  shows "\<exists>lo hi. lo |\<in>| S \<and> hi |\<in>| S \<and> replace_dash t = format_0b lo (nat n) \<and>
           count_list (format_0b hi (nat n)) (CHR ''1'') =
             Suc (count_list (format_0b lo (nat n)) (CHR ''1''))"
proof -
  from t obtain a b where ab: "a |\<in>| T" "b |\<in>| T" "combine a b = Some t"
    by (auto simp: new_terms_of_iff)
  from T ab obtain x y where xy: "x |\<in>| S" "y |\<in>| S"
    and a: "a = format_0b x (nat n)" and b: "b = format_0b y (nat n)"
    by (auto simp: terms_of_Inr)
  from S xy have x: "0 \<le> x" "x < 2 ^ nat n" and y: "0 \<le> y" "y < 2 ^ nat n" by auto
  from n have n1: "1 \<le> nat n" by simp
  have len: "length a = length b"
    unfolding a b using x y n1 by (simp add: length_format_0b)
  have bits: "set a \<subseteq> {CHR ''0'', CHR ''1''}" "set b \<subseteq> {CHR ''0'', CHR ''1''}"
    unfolding a b using x y by (simp_all add: format_0b_bits)
  from combine_bits_cases [OF bits len ab(3)] show ?thesis
  proof
    assume "replace_dash t = a \<and> count_list b (CHR ''1'') = Suc (count_list a (CHR ''1''))"
    with xy show ?thesis unfolding a b by blast
  next
    assume "replace_dash t = b \<and> count_list a (CHR ''1'') = Suc (count_list b (CHR ''1''))"
    with xy show ?thesis unfolding a b by blast
  qed
qed

lemma reencode_valid:
  assumes n: "1 \<le> n" and S: "\<forall>m. m |\<in>| S \<longrightarrow> 0 \<le> m \<and> m < 2 ^ nat n"
    and T: "terms_of S n = Inr T" and ms: "reencode (new_terms_of T) = Inr ms"
    and v: "v |\<in>| ms"
  shows "v |\<in>| S \<and> (\<exists>hi. hi |\<in>| S \<and>
           count_list (format_0b hi (nat n)) (CHR ''1'') =
             Suc (count_list (format_0b v (nat n)) (CHR ''1'')))"
proof -
  from ms have "ms = (\<lambda>t. int (bin_value 0 (replace_dash t))) |`| new_terms_of T"
    by (simp add: reencode_total [OF T])
  with v obtain t where t: "t |\<in>| new_terms_of T" and vt: "v = int (bin_value 0 (replace_dash t))"
    by auto
  from level_valid [OF n S T t] obtain lo hi where lh: "lo |\<in>| S" "hi |\<in>| S"
    and r: "replace_dash t = format_0b lo (nat n)"
    and c: "count_list (format_0b hi (nat n)) (CHR ''1'') =
             Suc (count_list (format_0b lo (nat n)) (CHR ''1''))"
    by blast
  from S lh(1) have "0 \<le> lo" by auto
  then have "v = lo" unfolding vt r by (simp only: bin_value_format_0b)
  with lh c show ?thesis by blast
qed

lemma terms_of_valid: "0 \<le> n \<Longrightarrow> terms_of S n = Inr ((\<lambda>m. format_0b m (nat n)) |`| S)"
  by (simp add: terms_of_def)

lemma qm_simplify_valid:
  "1 \<le> n \<Longrightarrow> \<forall>m. m |\<in>| S \<longrightarrow> 0 \<le> m \<and> m < 2 ^ nat n \<Longrightarrow>
     \<exists>R. qm_simplify S n = Inr R \<and> R |\<subseteq>| (\<lambda>m. format_0b m (nat n)) |`| S"
proof (induction S n rule: qm_simplify.induct)
  case (1 minterms num_vars)
  let ?T = "(\<lambda>m. format_0b m (nat num_vars)) |`| minterms"
  from "1.prems"(1) have T: "terms_of minterms num_vars = Inr ?T"
    by (simp add: terms_of_valid)
  show ?case
  proof (cases "new_terms_of ?T = {||}")
    case True
    then have "qm_simplify minterms num_vars = Inr (unchecked_of ?T)"
      by (simp add: qm_simplify_step [OF T])
    then show ?thesis using unchecked_of_subset [of ?T] by blast
  next
    case False
    let ?ms = "(\<lambda>t. int (bin_value 0 (replace_dash t))) |`| new_terms_of ?T"
    have ms: "reencode (new_terms_of ?T) = Inr ?ms" by (rule reencode_total [OF T])
    have sub: "?ms |\<subseteq>| minterms"
      using reencode_valid [OF "1.prems" T ms] by blast
    with "1.prems"(2) have valid: "\<forall>m. m |\<in>| ?ms \<longrightarrow> 0 \<le> m \<and> m < 2 ^ nat num_vars"
      by blast
    from "1.IH" [OF T refl refl False ms "1.prems"(1) valid]
    obtain R where R: "qm_simplify ?ms num_vars = Inr R"
      and RS: "R |\<subseteq>| (\<lambda>m. format_0b m (nat num_vars)) |`| ?ms" by blast
    from False ms R have "qm_simplify minterms num_vars = Inr (R |\<union>| unchecked_of ?T)"
      by (simp add: qm_simplify_step [OF T])
    moreover from RS sub have "R |\<subseteq>| ?T" by blast
    ultimately show ?thesis using unchecked_of_subset [of ?T] by blast
  qed
qed

lemma qm_simplify_total:
  "0 \<le> n \<Longrightarrow> \<exists>R. qm_simplify S n = Inr R"
proof (induction S n rule: qm_simplify.induct)
  case (1 minterms num_vars)
  let ?T = "(\<lambda>m. format_0b m (nat num_vars)) |`| minterms"
  from "1.prems" have T: "terms_of minterms num_vars = Inr ?T"
    by (simp add: terms_of_valid)
  show ?case
  proof (cases "new_terms_of ?T = {||}")
    case True
    then show ?thesis by (simp add: qm_simplify_step [OF T])
  next
    case False
    let ?ms = "(\<lambda>t. int (bin_value 0 (replace_dash t))) |`| new_terms_of ?T"
    have ms: "reencode (new_terms_of ?T) = Inr ?ms" by (rule reencode_total [OF T])
    from "1.IH" [OF T refl refl False ms "1.prems"]
    obtain R where R: "qm_simplify ?ms num_vars = Inr R" by blast
    from False ms R show ?thesis
      by (simp add: qm_simplify_step [OF T])
  qed
qed

section \<open>The covering relation\<close>

lemma bin_value_snoc: "bin_value 0 (s @ [c]) = 2 * bin_value 0 s + (if c = CHR ''1'' then 1 else 0)"
  by (simp add: bin_value_append)

lemma bits_nth:
  "set s \<subseteq> {CHR ''0'', CHR ''1''} \<Longrightarrow> i < length s \<Longrightarrow>
     s ! i = (if (bin_value 0 s div 2 ^ (length s - 1 - i)) mod 2 = 1 then CHR ''1'' else CHR ''0'')"
proof (induction s arbitrary: i rule: rev_induct)
  case Nil
  then show ?case by simp
next
  case (snoc c s)
  show ?case
  proof (cases "i < length s")
    case True
    then obtain k where k: "length s - i = Suc k" by (cases "length s - i") auto
    then have k': "length s - 1 - i = k" by simp
    have "(2 * bin_value 0 s + (if c = CHR ''1'' then 1 else 0)) div 2 ^ Suc k =
          (2 * bin_value 0 s + (if c = CHR ''1'' then 1 else 0)) div 2 div 2 ^ k"
      unfolding power_Suc by (rule div_mult2_eq)
    also have "(2 * bin_value 0 s + (if c = CHR ''1'' then 1 else 0)) div 2 = bin_value 0 s"
      by simp
    finally have "(2 * bin_value 0 s + (if c = CHR ''1'' then 1 else 0)) div 2 ^ Suc k =
          bin_value 0 s div 2 ^ k" .
    with snoc.IH [of i] snoc.prems True k k' show ?thesis
      by (simp add: nth_append bin_value_snoc del: power_Suc)
  next
    case False
    with snoc.prems have "i = length s" by simp
    with snoc.prems(1) show ?thesis by (auto simp: bin_value_snoc)
  qed
qed

text \<open>
  \<open>covers\<close> compares with the bits of the index, the first position being the most
  significant bit.
\<close>

lemma covers_bitwise:
  assumes m: "0 \<le> m" "m < 2 ^ n" and n: "1 \<le> n" and p: "length p = n"
  shows "covers p n m \<longleftrightarrow>
    (\<forall>i<n. p ! i \<noteq> CHR ''-'' \<longrightarrow>
       p ! i = (if (nat m div 2 ^ (n - 1 - i)) mod 2 = 1 then CHR ''1'' else CHR ''0''))"
proof -
  let ?s = "format_0b m n"
  have len: "length ?s = n" using m n by (rule length_format_0b)
  have val: "bin_value 0 ?s = nat m"
    using bin_value_format_0b [OF m(1), of n] by simp
  have "?s ! i = (if (nat m div 2 ^ (n - 1 - i)) mod 2 = 1 then CHR ''1'' else CHR ''0'')"
    if "i < n" for i
    using bits_nth [OF format_0b_bits [OF m(1)], of i n] that len val by simp
  then show ?thesis
    unfolding covers_def list_all2_conv_all_nth len p by auto
qed

section \<open>Concrete runs\<close>

lemma run_out_of_fuel: "qm_simplify_fuel 2 {|0, 1, 2, 3|} 2 = None"
  by code_simp

lemma run_all_four: "qm_simplify {|0, 1, 2, 3|} 2 = Inr {|''00''|}"
  by code_simp

lemma run_one_three: "qm_simplify {|1, 3|} 2 = Inr {|''01''|}"
  by code_simp

lemma run_one_of_three_vars: "qm_simplify {|1|} 3 = Inr {|''001''|}"
  by code_simp

lemma run_one_three_of_three_vars: "qm_simplify {|1, 3|} 3 = Inr {|''001''|}"
  by code_simp

lemma covers_runs:
  "covers ''01'' 2 1" "\<not> covers ''01'' 2 3" "covers ''001'' 3 1" "\<not> covers ''001'' 3 3"
  by code_simp+

lemma terms_of_one: "terms_of {|1|} 3 = Inr {|''001''|}"
  by code_simp

section \<open>Claims about the result\<close>

lemma covers_no_dash:
  assumes "CHR ''-'' \<notin> set p"
  shows "covers p n k \<longleftrightarrow> p = format_0b k n"
proof -
  have "list_all2 (\<lambda>c d. c = CHR ''-'' \<or> c = d) p q \<longleftrightarrow> list_all2 (=) p q" for q
    using assms by (auto elim!: list.rel_mono_strong)
  then show ?thesis by (simp add: covers_def list_all2_eq [symmetric])
qed

lemma covers_format_0b:
  assumes "0 \<le> m"
  shows "covers (format_0b m n) n k \<longleftrightarrow> k = m"
proof -
  from format_0b_bits [OF assms, of n] have nd: "CHR ''-'' \<notin> set (format_0b m n)" by auto
  have "format_0b m n = format_0b k n \<longleftrightarrow> k = m"
  proof
    assume eq: "format_0b m n = format_0b k n"
    show "k = m"
    proof (cases "k < 0")
      case True
      then have "CHR ''-'' \<in> set (format_0b k n)" by (simp add: format_0b_def Let_def)
      with nd eq show ?thesis by simp
    next
      case False
      then have "0 \<le> k" by simp
      from format_0b_inj [OF assms this eq] show ?thesis by simp
    qed
  qed simp
  with covers_no_dash [OF nd] show ?thesis by simp
qed

text \<open>What every pattern of the result looks like, on a valid input.\<close>

lemma result_pattern:
  assumes n: "1 \<le> n" and S: "\<forall>m. m |\<in>| S \<longrightarrow> 0 \<le> m \<and> m < 2 ^ nat n"
    and R: "qm_simplify S n = Inr R" and p: "p |\<in>| R"
  shows "\<exists>m. m |\<in>| S \<and> p = format_0b m (nat n) \<and> length p = nat n \<and>
           set p \<subseteq> {CHR ''0'', CHR ''1''} \<and> int_base2 p = Inr m \<and>
           (\<forall>k. covers p (nat n) k \<longleftrightarrow> k = m)"
proof -
  from qm_simplify_valid [OF n S] R have "R |\<subseteq>| (\<lambda>m. format_0b m (nat n)) |`| S" by simp
  with p obtain m where m: "m |\<in>| S" and pm: "p = format_0b m (nat n)" by blast
  from S m have m0: "0 \<le> m" and m1: "m < 2 ^ nat n" by auto
  from n have n1: "1 \<le> nat n" by simp
  show ?thesis
    using m pm length_format_0b [OF m0 m1 n1] format_0b_bits [OF m0, of "nat n"]
      int_base2_format_0b [OF m0, of "nat n"] covers_format_0b [OF m0, of "nat n"]
    by blast
qed

text \<open>
  C3. On a valid input (\<open>n \<ge> 1\<close>, every minterm in \<open>[0, 2^n)\<close>) \<^verbatim>\<open>qm_simplify\<close>
  returns a set, and every pattern in it has no \<^verbatim>\<open>-\<close>, is a string of \<open>n\<close> binary
  digits, has an input minterm as its integer value, and covers this one assignment
  only.
\<close>

theorem qm_simplify_returns_uncombined_minterms:
  assumes "1 \<le> n" and "\<forall>m. m |\<in>| S \<longrightarrow> 0 \<le> m \<and> m < 2 ^ nat n"
  shows "\<exists>R. qm_simplify S n = Inr R \<and>
           (\<forall>p. p |\<in>| R \<longrightarrow>
              CHR ''-'' \<notin> set p \<and> length p = nat n \<and> set p \<subseteq> {CHR ''0'', CHR ''1''} \<and>
              (\<exists>m. m |\<in>| S \<and> int_base2 p = Inr m \<and> (\<forall>k. covers p (nat n) k \<longleftrightarrow> k = m)))"
proof -
  from qm_simplify_valid [OF assms] obtain R where R: "qm_simplify S n = Inr R" by blast
  have "CHR ''-'' \<notin> set p \<and> length p = nat n \<and> set p \<subseteq> {CHR ''0'', CHR ''1''} \<and>
        (\<exists>m. m |\<in>| S \<and> int_base2 p = Inr m \<and> (\<forall>k. covers p (nat n) k \<longleftrightarrow> k = m))"
    if "p |\<in>| R" for p
    using result_pattern [OF assms R that] by auto
  with R show ?thesis by blast
qed

theorem qm_simplify_returns_uncombined_minterms_witness:
  "qm_simplify {|0, 1, 2, 3|} 2 = Inr {|''00''|} \<and> CHR ''-'' \<notin> set ''00'' \<and>
   int_base2 ''00'' = Inr 0 \<and> covers ''00'' 2 0 \<and> \<not> covers ''00'' 2 1 \<and>
   \<not> covers ''00'' 2 2 \<and> \<not> covers ''00'' 2 3"
proof -
  have v: "\<forall>m. m |\<in>| {|0, 1, 2, 3 :: int|} \<longrightarrow> 0 \<le> m \<and> m < 2 ^ nat 2" by auto
  note q = run_all_four
  from qm_simplify_returns_uncombined_minterms [OF _ v] q
  have "CHR ''-'' \<notin> set ''00'' \<and>
    (\<exists>m. m |\<in>| {|0, 1, 2, 3 :: int|} \<and> int_base2 ''00'' = Inr m \<and> (\<forall>k. covers ''00'' (nat 2) k \<longleftrightarrow> k = m))"
    by auto
  moreover have "int_base2 ''00'' = Inr 0" by (simp add: int_base2_def)
  ultimately have "\<forall>k. covers ''00'' 2 k \<longleftrightarrow> k = 0" by auto
  with q \<open>int_base2 ''00'' = Inr 0\<close> show ?thesis by simp
qed

text \<open>
  C10. On a valid input every pattern of the result is a string of exactly \<open>n\<close>
  characters, each of them 0, 1 or \<^verbatim>\<open>-\<close>.
\<close>

theorem qm_simplify_pattern_width:
  assumes "1 \<le> n" and "\<forall>m. m |\<in>| S \<longrightarrow> 0 \<le> m \<and> m < 2 ^ nat n"
  shows "\<exists>R. qm_simplify S n = Inr R \<and>
           (\<forall>p. p |\<in>| R \<longrightarrow> length p = nat n \<and> set p \<subseteq> {CHR ''0'', CHR ''1'', CHR ''-''})"
proof -
  from qm_simplify_valid [OF assms] obtain R where R: "qm_simplify S n = Inr R" by blast
  have "length p = nat n \<and> set p \<subseteq> {CHR ''0'', CHR ''1'', CHR ''-''}" if "p |\<in>| R" for p
    using result_pattern [OF assms R that] by auto
  with R show ?thesis by blast
qed

theorem qm_simplify_pattern_width_witness:
  "qm_simplify {|1, 3|} 2 = Inr {|''01''|} \<and> length ''01'' = nat 2 \<and>
   set ''01'' \<subseteq> {CHR ''0'', CHR ''1'', CHR ''-''}"
proof -
  have v: "\<forall>m. m |\<in>| {|1, 3 :: int|} \<longrightarrow> 0 \<le> m \<and> m < 2 ^ nat 2" by auto
  from qm_simplify_pattern_width [OF _ v] run_one_three
  have "length ''01'' = nat 2 \<and> set ''01'' \<subseteq> {CHR ''0'', CHR ''1'', CHR ''-''}" by auto
  with run_one_three show ?thesis by simp
qed

text \<open>
  C4. On a valid input (minterms and don't-cares disjoint, all in \<open>[0, 2^n)\<close>) no
  returned pattern covers an index outside the minterms and the don't-cares.
  \<^verbatim>\<open>qm_simplify\<close> has no parameter for don't-cares: the statement holds for the call
  on the minterms alone, as \<^verbatim>\<open>main\<close> makes it, and for the call on the set with the
  don't-cares put in.
\<close>

theorem qm_simplify_sound:
  assumes "1 \<le> n" and "\<forall>m. m |\<in>| M |\<union>| D \<longrightarrow> 0 \<le> m \<and> m < 2 ^ nat n"
    and "M |\<inter>| D = {||}"
  shows "\<exists>R R'. qm_simplify M n = Inr R \<and> qm_simplify (M |\<union>| D) n = Inr R' \<and>
           (\<forall>p k. (p |\<in>| R \<or> p |\<in>| R') \<and> covers p (nat n) k \<longrightarrow> k |\<in>| M |\<union>| D)"
proof -
  from assms(2) have M: "\<forall>m. m |\<in>| M \<longrightarrow> 0 \<le> m \<and> m < 2 ^ nat n" by auto
  from qm_simplify_valid [OF assms(1) M] obtain R where R: "qm_simplify M n = Inr R" by blast
  from qm_simplify_valid [OF assms(1,2)] obtain R' where R': "qm_simplify (M |\<union>| D) n = Inr R'"
    by blast
  have "k |\<in>| M |\<union>| D" if "p |\<in>| R \<or> p |\<in>| R'" and c: "covers p (nat n) k" for p k
    using that(1)
  proof
    assume "p |\<in>| R"
    from result_pattern [OF assms(1) M R this] c show ?thesis by auto
  next
    assume "p |\<in>| R'"
    from result_pattern [OF assms(1,2) R' this] c show ?thesis by auto
  qed
  with R R' show ?thesis by blast
qed

theorem qm_simplify_sound_witness:
  "qm_simplify {|1|} 3 = Inr {|''001''|} \<and> qm_simplify ({|1|} |\<union>| {|3|}) 3 = Inr {|''001''|} \<and>
   covers ''001'' 3 1 \<and> \<not> covers ''001'' 3 5"
proof -
  have v: "\<forall>m. m |\<in>| {|1 :: int|} |\<union>| {|3|} \<longrightarrow> 0 \<le> m \<and> m < 2 ^ nat 3" by auto
  have d: "{|1 :: int|} |\<inter>| {|3|} = {||}" by auto
  have u: "{|1 :: int|} |\<union>| {|3|} = {|1, 3|}" by auto
  from qm_simplify_sound [OF _ v d] run_one_of_three_vars
  have "\<forall>k. covers ''001'' (nat 3) k \<longrightarrow> k |\<in>| {|1 :: int|} |\<union>| {|3|}" by auto
  then have "\<not> covers ''001'' 3 5" by auto
  with run_one_of_three_vars run_one_three_of_three_vars u covers_runs(3) show ?thesis by simp
qed

text \<open>
  C1, at the input \<open>n = 2\<close>, minterms 1 and 3: the only pattern returned is \<^verbatim>\<open>01\<close>,
  and it does not cover minterm 3.
\<close>

theorem coverage_lost_at_one_three:
  "qm_simplify {|1, 3|} 2 = Inr {|''01''|} \<and> \<not> covers ''01'' 2 3"
  by (simp add: run_one_three covers_runs)

text \<open>
  C2, at both inputs of the scenario: the constant true function over two
  variables gives the pattern \<^verbatim>\<open>00\<close>, rendered \<^verbatim>\<open>!A.!B\<close>, and minterms 1 and 3 give
  the pattern \<^verbatim>\<open>01\<close>, rendered \<^verbatim>\<open>!A.B\<close>.
\<close>

theorem scenario_two_variables:
  "qm_simplify {|0, 1, 2, 3|} 2 = Inr {|''00''|} \<and>
   bits_to_expr ''00'' [''A'', ''B''] = ''!A.!B'' \<and>
   qm_simplify {|1, 3|} 2 = Inr {|''01''|} \<and>
   bits_to_expr ''01'' [''A'', ''B''] = ''!A.B''"
  by (simp add: run_all_four run_one_three bits_to_expr_def)

text \<open>
  C7, at the input of the scenario (three variables, minterm 1, don't-care 3):
  with or without the option the working set holds \<^verbatim>\<open>001\<close> alone and the result is
  \<^verbatim>\<open>001\<close>; the combination of \<^verbatim>\<open>001\<close> and \<^verbatim>\<open>011\<close> into \<^verbatim>\<open>0-1\<close> is never tried.
\<close>

theorem dontcare_option_unused:
  "main_simplified (Some ''3'') {|1|} [''A'', ''B'', ''C''] = Inr {|''001''|} \<and>
   main_simplified None {|1|} [''A'', ''B'', ''C''] = Inr {|''001''|} \<and>
   terms_of {|1|} 3 = Inr {|''001''|} \<and>
   combine ''001'' ''011'' = Some ''0-1'' \<and> covers ''001'' 3 1"
  by (simp add: main_simplified_def run_one_of_three_vars covers_runs terms_of_one combine_def)

section \<open>The number of nested calls\<close>

lemma fuel_step:
  "terms_of S n = Inr T \<Longrightarrow>
     qm_simplify_fuel (Suc k) S n =
       (if new_terms_of T = {||} then Some (Inr (unchecked_of T))
        else case qm_simplify_fuel k ((\<lambda>t. int (bin_value 0 (replace_dash t))) |`| new_terms_of T) n of
               None \<Rightarrow> None
             | Some (Inl e) \<Rightarrow> Some (Inl e)
             | Some (Inr r) \<Rightarrow> Some (Inr (r |\<union>| unchecked_of T)))"
  by (simp add: reencode_total Let_def)

lemma fuel_error: "terms_of S n = Inl e \<Longrightarrow> qm_simplify_fuel (Suc k) S n = Some (Inl e)"
  by simp

lemma call_step:
  "terms_of S n = Inr T \<Longrightarrow>
     qm_simplify S n =
       (if new_terms_of T = {||} then Inr (unchecked_of T)
        else case qm_simplify ((\<lambda>t. int (bin_value 0 (replace_dash t))) |`| new_terms_of T) n of
               Inl e \<Rightarrow> Inl e
             | Inr r \<Rightarrow> Inr (r |\<union>| unchecked_of T))"
  by (simp add: qm_simplify_step reencode_total)

lemma fuel_sound: "qm_simplify_fuel k S n = Some r \<Longrightarrow> r = qm_simplify S n"
proof (induction k arbitrary: S r)
  case 0
  then show ?case by simp
next
  case (Suc k)
  show ?case
  proof (cases "terms_of S n")
    case (Inl e)
    then have "qm_simplify S n = Inl e" by (rule qm_simplify_error)
    moreover from Suc.prems have "r = Inl e"
      by (simp add: fuel_error [OF Inl] del: qm_simplify_fuel.simps)
    ultimately show ?thesis by simp
  next
    case (Inr T)
    let ?ms = "(\<lambda>t. int (bin_value 0 (replace_dash t))) |`| new_terms_of T"
    show ?thesis
    proof (cases "new_terms_of T = {||}")
      case True
      from Suc.prems have "r = Inr (unchecked_of T)"
        by (simp add: fuel_step [OF Inr] True del: qm_simplify_fuel.simps)
      with True show ?thesis by (simp add: call_step [OF Inr])
    next
      case False
      from Suc.prems have *: "(case qm_simplify_fuel k ?ms n of
               None \<Rightarrow> None
             | Some (Inl e) \<Rightarrow> Some (Inl e)
             | Some (Inr r) \<Rightarrow> Some (Inr (r |\<union>| unchecked_of T))) = Some r"
        by (simp add: fuel_step [OF Inr] False del: qm_simplify_fuel.simps)
      then obtain r' where r': "qm_simplify_fuel k ?ms n = Some r'"
        by (cases "qm_simplify_fuel k ?ms n") simp_all
      from Suc.IH [OF r'] have eq: "qm_simplify ?ms n = r'" by simp
      have call: "qm_simplify S n = (case r' of Inl e \<Rightarrow> Inl e | Inr x \<Rightarrow> Inr (x |\<union>| unchecked_of T))"
        by (simp add: call_step [OF Inr] False eq)
      show ?thesis
      proof (cases r')
        case (Inl e)
        with * r' have "r = Inl e" by simp
        moreover from call Inl have "qm_simplify S n = Inl e" by simp
        ultimately show ?thesis by simp
      next
        case (Inr x)
        with * r' have "r = Inr (x |\<union>| unchecked_of T)" by simp
        moreover from call Inr have "qm_simplify S n = Inr (x |\<union>| unchecked_of T)" by simp
        ultimately show ?thesis by simp
      qed
    qed
  qed
qed

lemma count_list_le_length: "count_list xs x \<le> length xs"
  by (induction xs) auto

lemma fuel_enough:
  assumes "1 \<le> n"
  shows "\<forall>m. m |\<in>| S \<longrightarrow> 0 \<le> m \<and> m < 2 ^ nat n \<Longrightarrow>
         \<forall>m. m |\<in>| S \<longrightarrow> count_list (format_0b m (nat n)) (CHR ''1'') \<le> d \<Longrightarrow>
         \<exists>r. qm_simplify_fuel (Suc d) S n = Some r"
proof (induction d arbitrary: S)
  case 0
  let ?T = "(\<lambda>m. format_0b m (nat n)) |`| S"
  let ?ms = "(\<lambda>t. int (bin_value 0 (replace_dash t))) |`| new_terms_of ?T"
  from assms have T: "terms_of S n = Inr ?T"
    by (simp add: terms_of_valid)
  have "new_terms_of ?T = {||}"
  proof (rule ccontr)
    assume "new_terms_of ?T \<noteq> {||}"
    then obtain v where "v |\<in>| ?ms" by auto
    from reencode_valid [OF assms "0.prems"(1) T reencode_total [OF T] this] "0.prems"(2)
    show False by auto
  qed
  then show ?case by (simp add: fuel_step [OF T] del: qm_simplify_fuel.simps)
next
  case (Suc d)
  let ?T = "(\<lambda>m. format_0b m (nat n)) |`| S"
  let ?ms = "(\<lambda>t. int (bin_value 0 (replace_dash t))) |`| new_terms_of ?T"
  from assms have T: "terms_of S n = Inr ?T"
    by (simp add: terms_of_valid)
  note ms = reencode_total [OF T]
  show ?case
  proof (cases "new_terms_of ?T = {||}")
    case True
    then show ?thesis by (simp add: fuel_step [OF T] del: qm_simplify_fuel.simps)
  next
    case False
    have valid: "\<forall>m. m |\<in>| ?ms \<longrightarrow> 0 \<le> m \<and> m < 2 ^ nat n"
      using reencode_valid [OF assms Suc.prems(1) T ms] Suc.prems(1) by blast
    have ones: "\<forall>m. m |\<in>| ?ms \<longrightarrow> count_list (format_0b m (nat n)) (CHR ''1'') \<le> d"
    proof (intro allI impI)
      fix v assume "v |\<in>| ?ms"
      from reencode_valid [OF assms Suc.prems(1) T ms this] obtain hi where "hi |\<in>| S"
        and "count_list (format_0b hi (nat n)) (CHR ''1'') =
             Suc (count_list (format_0b v (nat n)) (CHR ''1''))" by blast
      with Suc.prems(2) show "count_list (format_0b v (nat n)) (CHR ''1'') \<le> d"
        by fastforce
    qed
    from Suc.IH [OF valid ones] obtain r where r: "qm_simplify_fuel (Suc d) ?ms n = Some r"
      by blast
    show ?thesis
      by (cases r) (simp_all add: fuel_step [OF T] False r del: qm_simplify_fuel.simps)
  qed
qed

text \<open>
  C6. On a valid input the recursion of \<^verbatim>\<open>qm_simplify\<close> reaches its base case: the
  call returns a set, and it does so with at most \<open>n\<close> nested calls below the first
  one, that is after at most \<open>n\<close> levels that produce combined patterns.
\<close>

theorem qm_simplify_terminates_within_n_levels:
  assumes "1 \<le> n" and "\<forall>m. m |\<in>| S \<longrightarrow> 0 \<le> m \<and> m < 2 ^ nat n"
  shows "qm_simplify_fuel (Suc (nat n)) S n = Some (qm_simplify S n) \<and>
         (\<exists>R. qm_simplify S n = Inr R)"
proof -
  have "\<forall>m. m |\<in>| S \<longrightarrow> count_list (format_0b m (nat n)) (CHR ''1'') \<le> nat n"
  proof (intro allI impI)
    fix m assume "m |\<in>| S"
    with assms have "length (format_0b m (nat n)) = nat n"
      by (simp add: length_format_0b)
    with count_list_le_length [of "format_0b m (nat n)" "CHR ''1''"]
    show "count_list (format_0b m (nat n)) (CHR ''1'') \<le> nat n" by simp
  qed
  from fuel_enough [OF assms this] obtain r where r: "qm_simplify_fuel (Suc (nat n)) S n = Some r"
    by blast
  from fuel_sound [OF r] r have "qm_simplify_fuel (Suc (nat n)) S n = Some (qm_simplify S n)"
    by simp
  moreover from qm_simplify_valid [OF assms] have "\<exists>R. qm_simplify S n = Inr R" by blast
  ultimately show ?thesis by simp
qed

theorem qm_simplify_terminates_within_n_levels_witness:
  "qm_simplify_fuel (Suc (nat 2)) {|0, 1, 2, 3|} 2 = Some (Inr {|''00''|}) \<and>
   qm_simplify_fuel 2 {|0, 1, 2, 3|} 2 = None"
proof -
  have v: "\<forall>m. m |\<in>| {|0, 1, 2, 3 :: int|} \<longrightarrow> 0 \<le> m \<and> m < 2 ^ nat 2" by auto
  from qm_simplify_terminates_within_n_levels [OF _ v] run_all_four
  have "qm_simplify_fuel (Suc (nat 2)) {|0, 1, 2, 3|} 2 = Some (Inr {|''00''|})" by simp
  with run_out_of_fuel show ?thesis by simp
qed

section \<open>The combination step\<close>








section \<open>The renderer\<close>

lemma bits_loop_eq:
  "bits_loop zs acc = acc @ concat (map (\<lambda>(b, v). literal_spec b v) zs)"
  by (induction zs acc rule: bits_loop.induct) (simp_all add: literal_spec_def)

lemma literals_by_position:
  assumes "length names = length pattern"
  shows "concat (map (\<lambda>i. literal_spec (pattern ! i) (names ! i)) [0..<length pattern]) =
         concat (map (\<lambda>(b, v). literal_spec b v) (zip pattern names))"
proof -
  have "zip pattern names = map (\<lambda>i. (pattern ! i, names ! i)) [0..<length pattern]"
    using assms by (intro nth_equalityI) simp_all
  then show ?thesis by (simp add: comp_def)
qed

text \<open>
  C8. For a pattern and as many variable names, \<^verbatim>\<open>bits_to_expr\<close> gives what the
  specification describes: the name for a 1, the name after \<^verbatim>\<open>!\<close> for a 0, nothing
  for a \<^verbatim>\<open>-\<close>, the literals joined by a dot; and the text \<^verbatim>\<open>1\<close> for a pattern made of
  \<^verbatim>\<open>-\<close> only.
\<close>

theorem bits_to_expr_renders:
  assumes "length vars = length bits"
  shows "bits_to_expr bits vars = render_spec bits vars \<and>
         (set bits \<subseteq> {CHR ''-''} \<longrightarrow> bits_to_expr bits vars = ''1'')"
proof
  show eq: "bits_to_expr bits vars = render_spec bits vars"
    by (simp add: bits_to_expr_def render_spec_def bits_loop_eq literals_by_position [OF assms]
        Let_def del: concat_eq_Nil_conv)
  show "set bits \<subseteq> {CHR ''-''} \<longrightarrow> bits_to_expr bits vars = ''1''"
  proof
    assume dash: "set bits \<subseteq> {CHR ''-''}"
    have "literal_spec (bits ! i) (vars ! i) = []" if "i < length bits" for i
    proof -
      from that dash have "bits ! i = CHR ''-''" using nth_mem by fastforce
      then show ?thesis by (simp add: literal_spec_def)
    qed
    then have none: "concat (map (\<lambda>i. literal_spec (bits ! i) (vars ! i)) [0..<length bits]) = []"
      by simp
    have "render_spec bits vars = ''1''"
      unfolding render_spec_def Let_def none by (rule if_P) (rule refl)
    with eq show "bits_to_expr bits vars = ''1''" by (rule trans)
  qed
qed

theorem bits_to_expr_renders_witness:
  "length [''A'', ''B'', ''C''] = length ''1-0'' \<and>
   bits_to_expr ''1-0'' [''A'', ''B'', ''C''] = ''A.!C'' \<and>
   render_spec ''1-0'' [''A'', ''B'', ''C''] = ''A.!C'' \<and>
   bits_to_expr ''--'' [''A'', ''B''] = ''1''"
proof -
  have b: "bits_to_expr ''1-0'' [''A'', ''B'', ''C''] = ''A.!C''"
    by (simp add: bits_to_expr_def)
  have "bits_to_expr ''1-0'' [''A'', ''B'', ''C''] = render_spec ''1-0'' [''A'', ''B'', ''C'']"
    by (rule bits_to_expr_renders [THEN conjunct1]) simp
  with b have "render_spec ''1-0'' [''A'', ''B'', ''C''] = ''A.!C''" by simp
  moreover have "bits_to_expr ''--'' [''A'', ''B''] = ''1''"
    by (rule bits_to_expr_renders [THEN conjunct2, rule_format]) simp_all
  ultimately show ?thesis using b by simp
qed

section \<open>Inputs that are not valid\<close>

lemma qm_simplify_empty: "qm_simplify {||} n = Inr {||}"
proof -
  have "terms_of {||} n = Inr {||}" by (simp add: terms_of_def)
  moreover have "new_terms_of {||} = {||}" by (simp add: new_terms_of_def)
  moreover have "unchecked_of {||} = {||}" using unchecked_of_subset [of "{||}"] by simp
  ultimately show ?thesis by (simp add: qm_simplify_step)
qed

text \<open>
  C9, as the code has it. \<^verbatim>\<open>qm_simplify\<close> checks nothing: for every \<open>n \<ge> 0\<close> and every
  set of integers it returns a set of patterns, and for a negative \<open>n\<close> it returns the
  empty set on the empty set and raises the \<^verbatim>\<open>ValueError\<close> of \<^verbatim>\<open>format\<close> otherwise.
\<close>

theorem qm_simplify_checks_nothing:
  "(n < 0 \<and> S \<noteq> {||} \<and> qm_simplify S n = Inl ValueError) \<or>
   ((0 \<le> n \<or> S = {||}) \<and> (\<exists>R. qm_simplify S n = Inr R))"
proof (cases "n < 0 \<and> S \<noteq> {||}")
  case True
  then have "terms_of S n = Inl ValueError" by (simp add: terms_of_def)
  from qm_simplify_error [OF this] True show ?thesis by simp
next
  case False
  show ?thesis
  proof (cases "0 \<le> n")
    case True
    with qm_simplify_total [OF True, of S] show ?thesis by simp
  next
    case n: False
    with False have "S = {||}" by simp
    then show ?thesis by (simp add: qm_simplify_empty)
  qed
qed

theorem qm_simplify_checks_nothing_witness:
  "qm_simplify {|0|} (- 1) = Inl ValueError \<and> qm_simplify {||} (- 1) = Inr {||}"
proof -
  from qm_simplify_checks_nothing [of "- 1" "{|0|}"]
  have "qm_simplify {|0|} (- 1) = Inl ValueError" by simp
  moreover from qm_simplify_checks_nothing [of "- 1" "{||}"]
  have "\<exists>R. qm_simplify {||} (- 1) = Inr R" by simp
  ultimately show ?thesis by (simp add: qm_simplify_empty)
qed

text \<open>
  C9 as stated fails: an index outside \<open>[0, 2^n)\<close> and \<open>n = 0\<close> are both accepted
  and a result is returned.
\<close>

theorem invalid_arguments_accepted:
  "\<not> (5 :: int) < 2 ^ 1 \<and> qm_simplify {|5|} 1 = Inr {|''101''|} \<and>
   \<not> (1 :: int) \<le> 0 \<and> qm_simplify {|0|} 0 = Inr {|''0''|}"
proof -
  have "qm_simplify {|5|} 1 = Inr {|''101''|}" by code_simp
  moreover have "qm_simplify {|0|} 0 = Inr {|''0''|}" by code_simp
  ultimately show ?thesis by simp
qed

end
